theory Spec2Isabelle
  imports Main "HOL-Library.AList" "HOL-Library.Char_ord" "HOL-Library.List_Lexorder"
begin

section \<open>Quine-McCluskey minimisation (\<open>quine_mccluskey.py\<close>)\<close>

text \<open>
  The class \<open>QuineMcCluskey\<close> holds the number of variables, the minterm and don't-care
  indices, their concatenation and the result. Indices are Python integers (\<open>int\<close>);
  terms are Python strings over \<open>0\<close>, \<open>1\<close> and \<open>-\<close> (\<open>string\<close>). The number of variables
  is a count (the driver passes \<open>len(variables)\<close>), modelled as \<open>nat\<close>.

  Exceptions are values: \<open>IndexError\<close> is what indexing a string past its end raises,
  \<open>ValueError\<close> is what \<open>max\<close> raises on an empty iterable. A \<open>while\<close> loop that
  need not end is a \<open>partial_function\<close> in the option monad, \<open>None\<close> standing for a run
  that never returns.
\<close>

datatype error = IndexError | ValueError

record QuineMcCluskey =
  num_variables :: nat
  minterms :: "int list"
  dont_cares :: "int list"
  all_terms :: "int list"
  simplified_terms :: "string list"

definition init :: "nat \<Rightarrow> int list \<Rightarrow> int list \<Rightarrow> QuineMcCluskey" where
  "init n ms dcs =
     \<lparr>num_variables = n, minterms = ms, dont_cares = dcs,
      all_terms = ms @ dcs, simplified_terms = []\<rparr>"

subsection \<open>Encoding of indices\<close>

text \<open>
  \<open>bin(i)\<close> is \<open>0b\<close> followed by the binary digits of \<open>i\<close>, most significant first, with a
  leading \<open>-\<close> for a negative \<open>i\<close>; \<open>bin(0)\<close> is \<open>0b0\<close>. \<open>s.zfill(w)\<close> pads \<open>s\<close> on the left
  with \<open>0\<close> up to length \<open>w\<close>, after a leading sign if there is one, and never shortens.
\<close>

fun bin_digits :: "nat \<Rightarrow> string" where
  "bin_digits k =
     (if k < 2 then [if k = 0 then CHR ''0'' else CHR ''1'']
      else bin_digits (k div 2) @ [if k mod 2 = 0 then CHR ''0'' else CHR ''1''])"

declare bin_digits.simps [simp del]

definition bin :: "int \<Rightarrow> string" where
  "bin i = (if i < 0 then ''-0b'' @ bin_digits (nat (- i)) else ''0b'' @ bin_digits (nat i))"

definition zfill :: "nat \<Rightarrow> string \<Rightarrow> string" where
  "zfill width s =
     (case s of
        c # rest \<Rightarrow>
          if c = CHR ''+'' \<or> c = CHR ''-''
          then c # replicate (width - length s) CHR ''0'' @ rest
          else replicate (width - length s) CHR ''0'' @ s
      | [] \<Rightarrow> replicate width CHR ''0'')"

text \<open>
  \<open>encode n term\<close> is the expression \<open>bin(term)[2:].zfill(self.num_variables)\<close> that
  \<open>minterms_to_binary\<close> evaluates for each term of its list.
\<close>

definition encode :: "nat \<Rightarrow> int \<Rightarrow> string" where
  "encode n term = zfill n (drop 2 (bin term))"

definition minterms_to_binary :: "nat \<Rightarrow> int list \<Rightarrow> string list" where
  "minterms_to_binary n terms = map (encode n) terms"

subsection \<open>Comparing and combining terms\<close>

text \<open>
  \<open>differs_by_one_bit\<close> and \<open>combine_binary_terms\<close> index \<open>term2\<close> at every position of
  \<open>term1\<close>, so they raise \<open>IndexError\<close> when \<open>term2\<close> is the shorter one. \<open>covers\<close> walks
  the positions of \<open>minterm\<close> inside \<open>all(...)\<close>, which stops at the first position that
  does not match; it raises only if the implicant ends before a mismatch is found.
\<close>

fun diff_count :: "string \<Rightarrow> string \<Rightarrow> error + nat" where
  "diff_count [] term2 = Inr 0"
| "diff_count (a # term1) [] = Inl IndexError"
| "diff_count (a # term1) (b # term2) =
     (case diff_count term1 term2 of
        Inl e \<Rightarrow> Inl e
      | Inr k \<Rightarrow> Inr (if a \<noteq> b then Suc k else k))"

definition differs_by_one_bit :: "string \<Rightarrow> string \<Rightarrow> error + bool" where
  "differs_by_one_bit term1 term2 =
     (case diff_count term1 term2 of Inl e \<Rightarrow> Inl e | Inr k \<Rightarrow> Inr (k = 1))"

fun combine_binary_terms :: "string \<Rightarrow> string \<Rightarrow> error + string" where
  "combine_binary_terms [] term2 = Inr []"
| "combine_binary_terms (a # term1) [] = Inl IndexError"
| "combine_binary_terms (a # term1) (b # term2) =
     (case combine_binary_terms term1 term2 of
        Inl e \<Rightarrow> Inl e
      | Inr cs \<Rightarrow> Inr ((if a = b then a else CHR ''-'') # cs))"

fun covers :: "string \<Rightarrow> string \<Rightarrow> error + bool" where
  "covers implicant [] = Inr True"
| "covers [] (b # minterm) = Inl IndexError"
| "covers (a # implicant) (b # minterm) =
     (if a = CHR ''-'' \<or> a = b then covers implicant minterm else Inr False)"

subsection \<open>Step 2: the merging loop\<close>

text \<open>
  One execution of the body of \<open>while terms:\<close>. The two nested \<open>for\<close> loops visit every
  ordered pair of the working set; what they leave in \<open>combined\<close> and \<open>used\<close> does not
  depend on the order of the visits, and the only exception they can raise is
  \<open>IndexError\<close>, so the body is modelled on sets. \<open>try_pair\<close> is the body of the inner
  loop for one pair: \<open>Inr None\<close> when the \<open>if\<close> is not taken, \<open>Inr (Some c)\<close> when the
  pair is combined into \<open>c\<close>.
\<close>

definition try_pair :: "string \<times> string \<Rightarrow> error + string option" where
  "try_pair p =
     (case p of (term1, term2) \<Rightarrow>
        if term1 \<noteq> term2 then
          (case differs_by_one_bit term1 term2 of
             Inl e \<Rightarrow> Inl e
           | Inr d \<Rightarrow>
               if d then
                 (case combine_binary_terms term1 term2 of
                    Inl e \<Rightarrow> Inl e
                  | Inr combined_term \<Rightarrow> Inr (Some combined_term))
               else Inr None)
        else Inr None)"

definition merge_round :: "string set \<Rightarrow> error + (string set \<times> string set)" where
  "merge_round terms =
     (let pairs = terms \<times> terms in
      if \<exists>p\<in>pairs. isl (try_pair p) then Inl IndexError
      else
        let hits = Set.filter (\<lambda>p. try_pair p \<noteq> Inr None) pairs;
            combined = (\<lambda>p. the (projr (try_pair p))) ` hits;
            used = fst ` hits \<union> snd ` hits
        in Inr (combined, used))"

text \<open>
  The loop itself. The third argument is a ghost counter of the executions of the loop
  body (it is not in the source); the result holds the prime implicants and that count.
\<close>

partial_function (option) merge_loop ::
  "string set \<Rightarrow> string set \<Rightarrow> nat \<Rightarrow> (error + (string set \<times> nat)) option" where
  "merge_loop terms prime_implicants rounds =
     (if terms = {} then Some (Inr (prime_implicants, rounds))
      else
        (case merge_round terms of
           Inl e \<Rightarrow> Some (Inl e)
         | Inr cu \<Rightarrow>
             merge_loop (fst cu) (prime_implicants \<union> (terms - snd cu)) (Suc rounds)))"

declare merge_loop.simps [code]

subsection \<open>Step 3: the coverage table\<close>

text \<open>
  The table is a \<open>dict\<close> from minterm strings to lists of implicants: an association list
  with \<open>AList.update\<close> for \<open>table[k] = v\<close> (an existing key keeps its place) and
  \<open>AList.delete\<close> for \<open>del table[k]\<close>. The list comprehension walks \<open>prime_implicants\<close>
  in the order the interpreter enumerates that set, which the caller passes in.
\<close>

type_synonym coverage = "(string \<times> string list) list"

fun covering :: "string list \<Rightarrow> string \<Rightarrow> error + string list" where
  "covering [] minterm = Inr []"
| "covering (implicant # rest) minterm =
     (case covers implicant minterm of
        Inl e \<Rightarrow> Inl e
      | Inr b \<Rightarrow>
          (case covering rest minterm of
             Inl e \<Rightarrow> Inl e
           | Inr cs \<Rightarrow> Inr (if b then implicant # cs else cs)))"

fun build_table :: "string list \<Rightarrow> string list \<Rightarrow> coverage \<Rightarrow> error + coverage" where
  "build_table pis [] table = Inr table"
| "build_table pis (minterm # rest) table =
     (case covering pis minterm of
        Inl e \<Rightarrow> Inl e
      | Inr implicants \<Rightarrow> build_table pis rest (AList.update minterm implicants table))"

subsection \<open>Step 4: essential prime implicants\<close>

definition essential_of :: "coverage \<Rightarrow> string set" where
  "essential_of table =
     (\<lambda>entry. hd (snd entry)) ` Set.filter (\<lambda>entry. length (snd entry) = 1) (set table)"

text \<open>
  \<open>delete_covered implicant keys table\<close> is the loop
  \<open>for minterm in list(table.keys()): if covers(implicant, minterm): del table[minterm]\<close>
  over the snapshot \<open>keys\<close>. A \<open>dict\<close> holds each key once, so the snapshot names no
  key twice and \<open>del\<close> never meets a key that is gone.
\<close>

fun delete_covered :: "string \<Rightarrow> string list \<Rightarrow> coverage \<Rightarrow> error + coverage" where
  "delete_covered implicant [] table = Inr table"
| "delete_covered implicant (minterm # keys) table =
     (case covers implicant minterm of
        Inl e \<Rightarrow> Inl e
      | Inr b \<Rightarrow>
          delete_covered implicant keys (if b then AList.delete minterm table else table))"

fun remove_essential :: "string list \<Rightarrow> coverage \<Rightarrow> error + coverage" where
  "remove_essential [] table = Inr table"
| "remove_essential (implicant # rest) table =
     (case delete_covered implicant (map fst table) table of
        Inl e \<Rightarrow> Inl e
      | Inr table' \<Rightarrow> remove_essential rest table')"

subsection \<open>Step 5: greedy completion\<close>

text \<open>
  \<open>count_covered implicant keys\<close> is the key function
  \<open>sum(covers(imp, m) for m in coverage_table)\<close>. \<open>max(iterable, key=f)\<close> keeps the
  first element whose key is greatest (a later element replaces the current one only
  when its key is strictly greater) and raises \<open>ValueError\<close> on an empty iterable.
\<close>

fun count_covered :: "string \<Rightarrow> string list \<Rightarrow> error + nat" where
  "count_covered implicant [] = Inr 0"
| "count_covered implicant (minterm # keys) =
     (case covers implicant minterm of
        Inl e \<Rightarrow> Inl e
      | Inr b \<Rightarrow>
          (case count_covered implicant keys of
             Inl e \<Rightarrow> Inl e
           | Inr k \<Rightarrow> Inr (if b then Suc k else k)))"

fun max_from :: "string \<Rightarrow> nat \<Rightarrow> string list \<Rightarrow> string list \<Rightarrow> error + string" where
  "max_from best k [] keys = Inr best"
| "max_from best k (implicant # rest) keys =
     (case count_covered implicant keys of
        Inl e \<Rightarrow> Inl e
      | Inr v \<Rightarrow> if k < v then max_from implicant v rest keys else max_from best k rest keys)"

definition max_by_coverage :: "string list \<Rightarrow> string list \<Rightarrow> error + string" where
  "max_by_coverage pis keys =
     (case pis of
        [] \<Rightarrow> Inl ValueError
      | implicant # rest \<Rightarrow>
          (case count_covered implicant keys of
             Inl e \<Rightarrow> Inl e
           | Inr k \<Rightarrow> max_from implicant k rest keys))"

partial_function (option) greedy ::
  "string list \<Rightarrow> coverage \<Rightarrow> string set \<Rightarrow> (error + string set) option" where
  "greedy pis table chosen =
     (if table = [] then Some (Inr chosen)
      else
        (case max_by_coverage pis (map fst table) of
           Inl e \<Rightarrow> Some (Inl e)
         | Inr best_choice \<Rightarrow>
             (case delete_covered best_choice (map fst table) table of
                Inl e \<Rightarrow> Some (Inl e)
              | Inr table' \<Rightarrow> greedy pis table' (insert best_choice chosen))))"

declare greedy.simps [code]

subsection \<open>\<open>simplify\<close>\<close>

text \<open>
  \<open>enum\<close> is the order in which the interpreter enumerates a set of strings. Python
  fixes no such order (it follows the strings' hashes, which change from one process to
  the next), so it is a parameter. It is applied to \<open>prime_implicants\<close> (the list
  comprehension of step 3 and \<open>max\<close> in step 5) and to the essential set (the removal
  loop of step 4). \<open>sorted\<close> orders strings by code point, shorter prefix first: the
  lexicographic order on \<open>char list\<close>.
\<close>

definition simplify ::
  "(string set \<Rightarrow> string list) \<Rightarrow> QuineMcCluskey \<Rightarrow> (error + QuineMcCluskey) option" where
  "simplify enum self =
     (let binary_terms = minterms_to_binary (num_variables self) (all_terms self);
          minterm_binaries = minterms_to_binary (num_variables self) (minterms self)
      in
      case merge_loop (set binary_terms) {} 0 of
        None \<Rightarrow> None
      | Some (Inl e) \<Rightarrow> Some (Inl e)
      | Some (Inr (prime_implicants, rounds)) \<Rightarrow>
          (case build_table (enum prime_implicants) minterm_binaries [] of
             Inl e \<Rightarrow> Some (Inl e)
           | Inr coverage_table \<Rightarrow>
               let essential = essential_of coverage_table in
               (case remove_essential (enum essential) coverage_table of
                  Inl e \<Rightarrow> Some (Inl e)
                | Inr remaining \<Rightarrow>
                    (case greedy (enum prime_implicants) remaining essential of
                       None \<Rightarrow> None
                     | Some (Inl e) \<Rightarrow> Some (Inl e)
                     | Some (Inr chosen) \<Rightarrow>
                         Some (Inr (self\<lparr>simplified_terms := sorted_list_of_set chosen\<rparr>))))))"

text \<open>
  The core of the driver \<open>quine_mccluskey_simplify\<close>: build the object, simplify, and hand
  \<open>simplified_terms\<close> to the writer.
\<close>

definition minimize ::
  "(string set \<Rightarrow> string list) \<Rightarrow> nat \<Rightarrow> int list \<Rightarrow> int list \<Rightarrow> (error + string list) option" where
  "minimize enum n ms dcs =
     (case simplify enum (init n ms dcs) of
        None \<Rightarrow> None
      | Some (Inl e) \<Rightarrow> Some (Inl e)
      | Some (Inr self) \<Rightarrow> Some (Inr (simplified_terms self)))"

section \<open>Notions used in the statements and proofs\<close>

subsection \<open>Inputs and enumerations\<close>

text \<open>
  An input is valid when every minterm and don't-care index lies in \<open>[0, 2^n)\<close> and the
  two lists share no index. An enumeration is admissible when it lists every finite set
  without repetition, as iterating over a Python set does. \<open>descending\<close> is the
  enumeration opposite to \<open>sorted_list_of_set\<close>; \<open>ascending_at Q\<close> lists the set \<open>Q\<close> in
  ascending order and every other set in descending order.
\<close>

definition in_range :: "nat \<Rightarrow> int list \<Rightarrow> bool" where
  "in_range n xs = (\<forall>i\<in>set xs. 0 \<le> i \<and> i < 2 ^ n)"

definition valid_input :: "nat \<Rightarrow> int list \<Rightarrow> int list \<Rightarrow> bool" where
  "valid_input n ms dcs = (in_range n ms \<and> in_range n dcs \<and> set ms \<inter> set dcs = {})"

definition valid_enum :: "(string set \<Rightarrow> string list) \<Rightarrow> bool" where
  "valid_enum enum = (\<forall>S. finite S \<longrightarrow> set (enum S) = S \<and> distinct (enum S))"

definition descending :: "string set \<Rightarrow> string list" where
  "descending S = rev (sorted_list_of_set S)"


subsection \<open>Terms of equal length\<close>

text \<open>
  On strings of equal length the three string functions raise nothing and are these
  total functions: the number of differing positions, the merged term, and the
  wildcard-aware match. \<open>dashes\<close> counts the wildcards of a term, \<open>bval\<close> reads a string
  of binary digits as a number.
\<close>

definition ndiff :: "string \<Rightarrow> string \<Rightarrow> nat" where
  "ndiff a b = length (filter (\<lambda>p. fst p \<noteq> snd p) (zip a b))"

definition merged :: "string \<Rightarrow> string \<Rightarrow> string" where
  "merged a b = map (\<lambda>p. if fst p = snd p then fst p else CHR ''-'') (zip a b)"

definition cov :: "string \<Rightarrow> string \<Rightarrow> bool" where
  "cov a s = list_all2 (\<lambda>c x. c = CHR ''-'' \<or> c = x) a s"

definition dashes :: "string \<Rightarrow> nat" where
  "dashes a = length (filter (\<lambda>c. c = CHR ''-'') a)"

definition symbols :: "char set" where "symbols = {CHR ''0'', CHR ''1'', CHR ''-''}"

definition bits :: "char set" where "bits = {CHR ''0'', CHR ''1''}"

definition bval :: "string \<Rightarrow> nat" where
  "bval s = foldl (\<lambda>a c. 2 * a + (if c = CHR ''1'' then 1 else 0)) 0 s"

subsection \<open>One round of merging, and its invariant\<close>

text \<open>
  \<open>next_terms\<close> and \<open>used_terms\<close> are the sets \<open>combined\<close> and \<open>used\<close> that a round
  leaves; \<open>next_list\<close> and \<open>unused_list\<close> compute them on lists. A term is an implicant of
  a set \<open>B\<close> of bit strings when every bit string it matches is in \<open>B\<close>. The invariant of
  the loop: the prime implicants found so far have the common length, every term of \<open>B\<close>
  is matched by a working term or by a prime implicant, and (when \<open>B\<close> holds bit strings
  only) every working term and prime implicant is an implicant of \<open>B\<close>.
\<close>

definition next_terms :: "string set \<Rightarrow> string set" where
  "next_terms T = (\<lambda>p. merged (fst p) (snd p)) ` {p \<in> T \<times> T. ndiff (fst p) (snd p) = 1}"

definition used_terms :: "string set \<Rightarrow> string set" where
  "used_terms T = {a \<in> T. \<exists>b\<in>T. ndiff a b = 1}"

definition next_list :: "string list \<Rightarrow> string list" where
  "next_list xs = concat (map (\<lambda>a. map (merged a) (filter (\<lambda>b. ndiff a b = 1) xs)) xs)"

definition unused_list :: "string list \<Rightarrow> string list" where
  "unused_list xs = filter (\<lambda>a. \<not> (\<exists>b\<in>set xs. ndiff a b = 1)) xs"

definition implicant_of :: "string set \<Rightarrow> string \<Rightarrow> bool" where
  "implicant_of B t = (set t \<subseteq> symbols \<and> (\<forall>s. set s \<subseteq> bits \<longrightarrow> cov t s \<longrightarrow> s \<in> B))"

definition merge_inv :: "nat \<Rightarrow> string set \<Rightarrow> string set \<Rightarrow> string set \<Rightarrow> bool" where
  "merge_inv L B T P =
     (finite T \<and> finite P \<and> (\<forall>p\<in>P. length p = L) \<and> (\<forall>s\<in>B. \<exists>t\<in>T \<union> P. cov t s) \<and>
      ((\<forall>s\<in>B. set s \<subseteq> bits) \<longrightarrow> (\<forall>t\<in>T \<union> P. implicant_of B t)))"

subsection \<open>Coverage\<close>

text \<open>
  \<open>coverers pis m\<close> is the list the table holds for the minterm \<open>m\<close>; \<open>cnt keys p\<close> is
  the key of \<open>p\<close> in the greedy choice.
\<close>

definition coverers :: "string list \<Rightarrow> string \<Rightarrow> string list" where
  "coverers pis m = filter (\<lambda>p. cov p m) pis"

definition cnt :: "string list \<Rightarrow> string \<Rightarrow> nat" where
  "cnt keys p = length (filter (cov p) keys)"

section \<open>Properties of the parts\<close>

lemma diff_count_le: "length a \<le> length b \<Longrightarrow> diff_count a b = Inr (ndiff a b)"
proof (induction a b rule: diff_count.induct)
  case (3 a term1 b term2)
  then show ?case by (simp add: ndiff_def)
qed (simp_all add: ndiff_def)

lemma diff_count_gt: "length b < length a \<Longrightarrow> diff_count a b = Inl IndexError"
  by (induction a b rule: diff_count.induct) simp_all

lemma combine_le: "length a \<le> length b \<Longrightarrow> combine_binary_terms a b = Inr (merged a b)"
  by (induction a b rule: combine_binary_terms.induct) (simp_all add: merged_def)

lemma covers_eq: "length a = length s \<Longrightarrow> covers a s = Inr (cov a s)"
  by (induction a s rule: covers.induct) (simp_all add: cov_def)

lemma ndiff_same: "ndiff a a = 0"
  by (induction a) (simp_all add: ndiff_def)

lemma try_pair_eq:
  "length a = length b \<Longrightarrow>
   try_pair (a, b) = Inr (if ndiff a b = 1 then Some (merged a b) else None)"
proof -
  assume len: "length a = length b"
  have "a = b \<Longrightarrow> ndiff a b = 0"
    by (simp add: ndiff_same)
  with len show ?thesis
    by (auto simp: try_pair_def differs_by_one_bit_def diff_count_le combine_le)
qed

lemma try_pair_err:
  "length a \<noteq> length b \<Longrightarrow> isl (try_pair (a, b)) \<or> isl (try_pair (b, a))"
proof -
  assume "length a \<noteq> length b"
  then consider "length b < length a" | "length a < length b" by linarith
  then show ?thesis
  proof cases
    case 1
    then have "a \<noteq> b" by auto
    with 1 show ?thesis by (simp add: try_pair_def differs_by_one_bit_def diff_count_gt)
  next
    case 2
    then have "b \<noteq> a" by auto
    with 2 show ?thesis by (simp add: try_pair_def differs_by_one_bit_def diff_count_gt)
  qed
qed

lemma ndiff_sym: "length a = length b \<Longrightarrow> ndiff a b = ndiff b a"
  by (induction a b rule: list_induct2) (auto simp: ndiff_def)

lemma ndiff_zero: "length a = length b \<Longrightarrow> ndiff a b = 0 \<Longrightarrow> a = b"
  by (induction a b rule: list_induct2) (auto simp: ndiff_def split: if_splits)

lemma merged_same: "merged a a = a"
  by (induction a) (simp_all add: merged_def)

lemma length_merged: "length a = length b \<Longrightarrow> length (merged a b) = length a"
  by (simp add: merged_def)

lemma dashes_merged_ge:
  "length a = length b \<Longrightarrow> dashes a \<le> dashes (merged a b) \<and> dashes b \<le> dashes (merged a b)"
  by (induction a b rule: list_induct2) (auto simp: dashes_def merged_def)

lemma dashes_merged_suc:
  "length a = length b \<Longrightarrow> a \<noteq> b \<Longrightarrow> Suc (min (dashes a) (dashes b)) \<le> dashes (merged a b)"
proof (induction a b rule: list_induct2)
  case Nil
  then show ?case by simp
next
  case (Cons x xs y ys)
  have ge: "dashes xs \<le> dashes (merged xs ys)" "dashes ys \<le> dashes (merged xs ys)"
    using dashes_merged_ge [OF Cons.hyps] by simp_all
  show ?case
  proof (cases "x = y")
    case True
    with Cons.prems have "xs \<noteq> ys" by simp
    from Cons.IH [OF this] True show ?thesis
      by (auto simp: dashes_def merged_def)
  next
    case False
    with ge show ?thesis
      by (auto simp: dashes_def merged_def min_def)
  qed
qed

lemma cov_merged:
  "length a = length b \<Longrightarrow> length a = length s \<Longrightarrow> cov a s \<Longrightarrow> cov (merged a b) s"
proof (induction a b arbitrary: s rule: list_induct2)
  case Nil
  then show ?case by (simp add: merged_def)
next
  case (Cons x xs y ys)
  then show ?case by (cases s) (auto simp: cov_def merged_def)
qed

lemma cov_merged_sym:
  "length a = length b \<Longrightarrow> length a = length s \<Longrightarrow> cov b s \<Longrightarrow> cov (merged a b) s"
proof (induction a b arbitrary: s rule: list_induct2)
  case Nil
  then show ?case by (simp add: merged_def)
next
  case (Cons x xs y ys)
  then show ?case by (cases s) (auto simp: cov_def merged_def)
qed

lemma cov_merged_split:
  "length a = length b \<Longrightarrow> ndiff a b = 1 \<Longrightarrow> set a \<subseteq> symbols \<Longrightarrow> set b \<subseteq> symbols \<Longrightarrow>
   set s \<subseteq> bits \<Longrightarrow> cov (merged a b) s \<Longrightarrow> cov a s \<or> cov b s"
proof (induction a b arbitrary: s rule: list_induct2)
  case Nil
  then show ?case by (simp add: ndiff_def)
next
  case (Cons x xs y ys)
  from Cons.prems(5) obtain z zs where s: "s = z # zs"
    by (cases s) (auto simp: cov_def merged_def)
  show ?case
  proof (cases "x = y")
    case True
    with Cons.prems have "ndiff xs ys = 1" by (simp add: ndiff_def)
    moreover from Cons.prems s True have "cov (merged xs ys) zs"
      by (simp add: cov_def merged_def)
    ultimately have "cov xs zs \<or> cov ys zs"
      using Cons.IH [of zs] Cons.prems s by simp
    moreover from Cons.prems s True have "x = CHR ''-'' \<or> x = z"
      by (simp add: cov_def merged_def)
    ultimately show ?thesis using s True by (auto simp: cov_def)
  next
    case False
    with Cons.prems have "ndiff xs ys = 0" by (simp add: ndiff_def)
    with Cons.hyps have eq: "xs = ys" by (rule ndiff_zero)
    from Cons.prems s False have "cov (merged xs ys) zs"
      by (simp add: cov_def merged_def)
    with eq have c: "cov xs zs" by (simp add: merged_same)
    from Cons.prems s have "x \<in> symbols" "y \<in> symbols" "z \<in> bits" by simp_all
    with False have "x = CHR ''-'' \<or> y = CHR ''-'' \<or> x = z \<or> y = z"
      by (auto simp: symbols_def bits_def)
    with c eq s show ?thesis by (auto simp: cov_def)
  qed
qed

lemma set_merged: "set (merged a b) \<subseteq> insert CHR ''-'' (set a)"
  by (auto simp: merged_def dest: set_zip_leftD)

lemma dashes_le_length: "dashes a \<le> length a"
  by (simp add: dashes_def)

lemma cov_refl: "cov s s"
  by (simp add: cov_def list_all2_same)

lemma cov_length: "cov a s \<Longrightarrow> length a = length s"
  by (simp add: cov_def list_all2_lengthD)

lemma cov_bits_eq: "set a \<subseteq> bits \<Longrightarrow> cov a s \<Longrightarrow> a = s"
proof -
  assume a: "set a \<subseteq> bits" and c: "cov a s"
  from c have "list_all2 (\<lambda>c x. c = CHR ''-'' \<or> c = x) a s" by (simp add: cov_def)
  then show ?thesis using a
    by (induction rule: list_all2_induct) (auto simp: bits_def)
qed

lemma merge_round_uniform:
  assumes "\<forall>t\<in>T. length t = L"
  shows "merge_round T = Inr (next_terms T, used_terms T)"
proof -
  have tp: "try_pair p = Inr (if ndiff (fst p) (snd p) = 1 then Some (merged (fst p) (snd p)) else None)"
    if "p \<in> T \<times> T" for p
  proof -
    from that assms have "length (fst p) = length (snd p)" by auto
    from try_pair_eq [OF this] show ?thesis by simp
  qed
  have noerr: "\<not> (\<exists>p\<in>T \<times> T. isl (try_pair p))"
    using tp by auto
  have hits: "{p \<in> T \<times> T. try_pair p \<noteq> Inr None} = {p \<in> T \<times> T. ndiff (fst p) (snd p) = 1}"
    using tp by (auto split: if_splits)
  have comb: "(\<lambda>p. the (projr (try_pair p))) ` {p \<in> T \<times> T. ndiff (fst p) (snd p) = 1} = next_terms T"
    unfolding next_terms_def by (rule image_cong) (auto simp: tp)
  have used: "fst ` {p \<in> T \<times> T. ndiff (fst p) (snd p) = 1} \<union> snd ` {p \<in> T \<times> T. ndiff (fst p) (snd p) = 1} = used_terms T"
  proof (rule set_eqI)
    fix a
    show "a \<in> fst ` {p \<in> T \<times> T. ndiff (fst p) (snd p) = 1} \<union> snd ` {p \<in> T \<times> T. ndiff (fst p) (snd p) = 1}
      \<longleftrightarrow> a \<in> used_terms T"
    proof
      assume "a \<in> fst ` {p \<in> T \<times> T. ndiff (fst p) (snd p) = 1} \<union> snd ` {p \<in> T \<times> T. ndiff (fst p) (snd p) = 1}"
      then obtain b where b: "b \<in> T" "a \<in> T" "ndiff a b = 1 \<or> ndiff b a = 1"
        by auto
      with assms have "length a = length b" by simp
      from ndiff_sym [OF this] b show "a \<in> used_terms T"
        by (auto simp: used_terms_def)
    next
      assume "a \<in> used_terms T"
      then obtain b where "a \<in> T" "b \<in> T" "ndiff a b = 1"
        by (auto simp: used_terms_def)
      then have "(a, b) \<in> {p \<in> T \<times> T. ndiff (fst p) (snd p) = 1}" by simp
      then have "fst (a, b) \<in> fst ` {p \<in> T \<times> T. ndiff (fst p) (snd p) = 1}"
        by (rule imageI)
      then show "a \<in> fst ` {p \<in> T \<times> T. ndiff (fst p) (snd p) = 1} \<union> snd ` {p \<in> T \<times> T. ndiff (fst p) (snd p) = 1}"
        by simp
    qed
  qed
  show ?thesis
    unfolding merge_round_def Let_def Set.filter_eq hits comb used using noerr by simp
qed

lemma merge_round_mixed:
  assumes "a \<in> T" "b \<in> T" "length a \<noteq> length b"
  shows "merge_round T = Inl IndexError"
proof -
  from try_pair_err [OF assms(3)] assms(1,2) have "\<exists>p\<in>T \<times> T. isl (try_pair p)"
    by auto
  then show ?thesis unfolding merge_round_def Let_def by simp
qed

lemma next_terms_length: "\<forall>t\<in>T. length t = L \<Longrightarrow> \<forall>c\<in>next_terms T. length c = L"
  by (auto simp: next_terms_def length_merged)

lemma next_terms_finite: "finite T \<Longrightarrow> finite (next_terms T)"
  by (simp add: next_terms_def)

lemma next_terms_dashes:
  assumes "\<forall>t\<in>T. length t = L" "\<forall>t\<in>T. d \<le> dashes t"
  shows "\<forall>c\<in>next_terms T. Suc d \<le> dashes c"
proof
  fix c assume "c \<in> next_terms T"
  then obtain a b where ab: "a \<in> T" "b \<in> T" "ndiff a b = 1" "c = merged a b"
    by (auto simp: next_terms_def)
  with assms have len: "length a = length b" by simp
  from ab have "a \<noteq> b" by (auto simp: ndiff_same)
  from dashes_merged_suc [OF len this] assms(2) ab show "Suc d \<le> dashes c"
    by (auto simp: min_def split: if_splits)
qed

lemma merge_loop_rule:
  assumes "\<forall>t\<in>T. length t = L" "\<forall>t\<in>T. d \<le> dashes t" "I T P"
    and step: "\<And>T P. \<forall>t\<in>T. length t = L \<Longrightarrow> T \<noteq> {} \<Longrightarrow> I T P \<Longrightarrow>
                 I (next_terms T) (P \<union> (T - used_terms T))"
  shows "\<exists>P' k'. merge_loop T P k = Some (Inr (P', k')) \<and> k' \<le> k + (Suc L - d) \<and> I {} P'"
  using assms(1-3)
proof (induction "Suc L - d" arbitrary: T P k d)
  case 0
  have "T = {}"
  proof (rule ccontr)
    assume "T \<noteq> {}"
    then obtain t where "t \<in> T" by auto
    with 0 have "d \<le> dashes t" "length t = L" by auto
    with dashes_le_length [of t] 0(1) show False by simp
  qed
  with 0 show ?case by (simp add: merge_loop.simps)
next
  case (Suc m)
  show ?case
  proof (cases "T = {}")
    case True
    with Suc show ?thesis by (simp add: merge_loop.simps)
  next
    case False
    have r: "merge_round T = Inr (next_terms T, used_terms T)"
      using Suc.prems(1) by (rule merge_round_uniform)
    have m: "m = Suc L - Suc d" using Suc(2) by simp
    from Suc.hyps(1) [OF m next_terms_length [OF Suc.prems(1)]
        next_terms_dashes [OF Suc.prems(1,2)] step [OF Suc.prems(1) False Suc.prems(3)],
        of "Suc k"]
    obtain P' k' where res:
      "merge_loop (next_terms T) (P \<union> (T - used_terms T)) (Suc k) = Some (Inr (P', k'))"
      "k' \<le> Suc k + (Suc L - Suc d)" "I {} P'" by blast
    from Suc(2) have "Suc k + (Suc L - Suc d) = k + (Suc L - d)" by simp
    with res False r show ?thesis
      by (subst merge_loop.simps) simp
  qed
qed

lemma merge_loop_mixed:
  assumes "a \<in> T" "b \<in> T" "length a \<noteq> length b"
  shows "merge_loop T P k = Some (Inl IndexError)"
proof -
  from assms(1) have "T \<noteq> {}" by auto
  with merge_round_mixed [OF assms] show ?thesis
    by (subst merge_loop.simps) simp
qed

lemma bin_digits_bits: "set (bin_digits k) \<subseteq> bits"
proof (induction k rule: bin_digits.induct)
  case (1 k)
  then show ?case by (subst bin_digits.simps) (auto simp: bits_def)
qed

lemma bin_digits_nonempty: "bin_digits k \<noteq> []"
  by (subst bin_digits.simps) simp

lemma bin_digits_length: "k < 2 ^ n \<Longrightarrow> 0 < n \<Longrightarrow> length (bin_digits k) \<le> n"
proof (induction k arbitrary: n rule: bin_digits.induct)
  case (1 k)
  show ?case
  proof (cases "k < 2")
    case True
    with 1 show ?thesis by (subst bin_digits.simps) simp
  next
    case False
    from 1(3) obtain m where n: "n = Suc m" by (cases n) auto
    with 1(2) have half: "k div 2 < 2 ^ m" by simp
    have "0 < m"
    proof (rule ccontr)
      assume "\<not> 0 < m"
      with n 1(2) False show False by simp
    qed
    from 1(1) [OF False half this] n False show ?thesis
      by (subst bin_digits.simps) simp
  qed
qed

lemma bin_digits_zero: "bin_digits 0 = ''0''"
  by (subst bin_digits.simps) simp

lemma bval_bin_digits: "bval (bin_digits k) = k"
proof (induction k rule: bin_digits.induct)
  case (1 k)
  show ?case
  proof (cases "k < 2")
    case True
    then have "k = 0 \<or> k = 1" by auto
    then show ?thesis by (subst bin_digits.simps) (auto simp: bval_def)
  next
    case False
    with 1 have "bval (bin_digits (k div 2)) = k div 2" by simp
    moreover have "k mod 2 = 0 \<Longrightarrow> 2 * (k div 2) = k" by presburger
    moreover have "k mod 2 \<noteq> 0 \<Longrightarrow> Suc (2 * (k div 2)) = k" by presburger
    ultimately show ?thesis using False
      by (subst bin_digits.simps) (simp add: bval_def)
  qed
qed

lemma bval_zeros: "bval (replicate m CHR ''0'' @ s) = bval s"
proof -
  have "foldl (\<lambda>a c. 2 * a + (if c = CHR ''1'' then 1 else 0)) (0::nat) (replicate m CHR ''0'') = 0"
    by (induction m) simp_all
  then show ?thesis by (simp add: bval_def)
qed

lemma encode_nonneg:
  "0 \<le> i \<Longrightarrow> encode n i = replicate (n - length (bin_digits (nat i))) CHR ''0'' @ bin_digits (nat i)"
proof -
  assume i: "0 \<le> i"
  obtain c rest where d: "bin_digits (nat i) = c # rest"
    using bin_digits_nonempty [of "nat i"] by (cases "bin_digits (nat i)") auto
  with bin_digits_bits [of "nat i"] have "c \<in> bits" by simp
  then have "c \<noteq> CHR ''+''" "c \<noteq> CHR ''-''" by (auto simp: bits_def)
  with i d show ?thesis by (simp add: encode_def bin_def zfill_def)
qed

lemma encode_bits: "0 \<le> i \<Longrightarrow> set (encode n i) \<subseteq> bits"
  using bin_digits_bits [of "nat i"] by (auto simp: encode_nonneg bits_def)

lemma encode_length: "0 \<le> i \<Longrightarrow> i < 2 ^ n \<Longrightarrow> length (encode n i) = max 1 n"
proof (cases "n = 0")
  case True
  assume "0 \<le> i" "i < 2 ^ n"
  with True have "i = 0" by simp
  with True show ?thesis by (simp add: encode_nonneg bin_digits_zero)
next
  case False
  assume i: "0 \<le> i" "i < 2 ^ n"
  then have "nat i < 2 ^ n" by (simp add: nat_less_iff)
  from bin_digits_length [OF this] False have "length (bin_digits (nat i)) \<le> n" by simp
  with i False show ?thesis by (simp add: encode_nonneg)
qed

lemma bval_encode: "0 \<le> i \<Longrightarrow> bval (encode n i) = nat i"
  by (simp add: encode_nonneg bval_zeros bval_bin_digits)

lemma encode_inj: "0 \<le> i \<Longrightarrow> 0 \<le> j \<Longrightarrow> encode n i = encode n j \<Longrightarrow> i = j"
proof -
  assume i: "0 \<le> i" and j: "0 \<le> j" and e: "encode n i = encode n j"
  from e have "bval (encode n i) = bval (encode n j)" by simp
  with i j show ?thesis by (simp add: bval_encode)
qed

lemma in_range_uniform:
  "in_range n xs \<Longrightarrow> \<forall>t\<in>set (minterms_to_binary n xs). length t = max 1 n \<and> set t \<subseteq> bits"
  by (auto simp: in_range_def minterms_to_binary_def encode_length dest: encode_bits)

lemma covering_eq:
  "\<forall>p\<in>set pis. length p = length m \<Longrightarrow> covering pis m = Inr (coverers pis m)"
  by (induction pis) (simp_all add: coverers_def covers_eq)

lemma build_table_ok:
  assumes "\<forall>p\<in>set pis. length p = L" "\<forall>m\<in>set mbs. length m = L"
  shows "\<exists>tbl'. build_table pis mbs tbl = Inr tbl' \<and>
           (distinct (map fst tbl) \<longrightarrow> distinct (map fst tbl')) \<and>
           map_of tbl' = (\<lambda>m. if m \<in> set mbs then Some (coverers pis m) else map_of tbl m)"
  using assms(2)
proof (induction mbs arbitrary: tbl)
  case Nil
  then show ?case by simp
next
  case (Cons m mbs)
  from Cons.prems assms(1) have c: "covering pis m = Inr (coverers pis m)"
    by (intro covering_eq) simp
  from Cons.prems have "\<forall>m\<in>set mbs. length m = L" by simp
  from Cons.IH [OF this, of "AList.update m (coverers pis m) tbl"]
  obtain tbl' where t:
    "build_table pis mbs (AList.update m (coverers pis m) tbl) = Inr tbl'"
    "distinct (map fst (AList.update m (coverers pis m) tbl)) \<longrightarrow> distinct (map fst tbl')"
    "map_of tbl' = (\<lambda>k. if k \<in> set mbs then Some (coverers pis k)
                       else map_of (AList.update m (coverers pis m) tbl) k)"
    by blast
  have "map_of tbl' = (\<lambda>k. if k \<in> set (m # mbs) then Some (coverers pis k) else map_of tbl k)"
    by (rule ext) (simp add: t(3) update_conv')
  with t(1,2) c show ?case by (simp add: distinct_update)
qed

lemma table_set:
  assumes "distinct (map fst tbl)" "map_of tbl = (\<lambda>m. if m \<in> K then Some (f m) else None)"
  shows "set tbl = (\<lambda>m. (m, f m)) ` K"
proof (rule set_eqI)
  fix e :: "'a \<times> 'b"
  obtain k v where e: "e = (k, v)" by (cases e)
  have "(k, v) \<in> set tbl \<longleftrightarrow> map_of tbl k = Some v"
    using assms(1) by simp
  also have "\<dots> \<longleftrightarrow> k \<in> K \<and> v = f k" by (auto simp: assms(2))
  finally show "e \<in> set tbl \<longleftrightarrow> e \<in> (\<lambda>m. (m, f m)) ` K" using e by auto
qed

lemma essential_of_set:
  assumes "set tbl = (\<lambda>m. (m, coverers pis m)) ` K"
  shows "essential_of tbl = {e. \<exists>m\<in>K. coverers pis m = [e]}"
proof (rule set_eqI)
  fix e
  show "e \<in> essential_of tbl \<longleftrightarrow> e \<in> {e. \<exists>m\<in>K. coverers pis m = [e]}"
  proof
    assume "e \<in> essential_of tbl"
    then obtain entry where en: "entry \<in> set tbl" "length (snd entry) = 1" "e = hd (snd entry)"
      unfolding essential_of_def by auto
    from en(1) obtain m where m: "m \<in> K" "entry = (m, coverers pis m)"
      unfolding assms by blast
    with en(2,3) have "coverers pis m = [e]"
      by (cases "coverers pis m") simp_all
    with m(1) show "e \<in> {e. \<exists>m\<in>K. coverers pis m = [e]}" by blast
  next
    assume "e \<in> {e. \<exists>m\<in>K. coverers pis m = [e]}"
    then obtain m where m: "m \<in> K" "coverers pis m = [e]" by auto
    from m(1) have "(m, coverers pis m) \<in> set tbl"
      unfolding assms by (rule imageI)
    with m(2) have "(m, coverers pis m) \<in> {entry \<in> set tbl. length (snd entry) = 1}"
      by simp
    then have "hd (snd (m, coverers pis m)) \<in> (\<lambda>entry. hd (snd entry)) ` {entry \<in> set tbl. length (snd entry) = 1}"
      by (rule imageI)
    with m show "e \<in> essential_of tbl" by (simp add: essential_of_def)
  qed
qed

lemma delete_covered_eq:
  "\<forall>m\<in>set keys. length m = length imp \<Longrightarrow>
   delete_covered imp keys tbl = Inr (filter (\<lambda>e. \<not> (fst e \<in> set keys \<and> cov imp (fst e))) tbl)"
proof (induction keys arbitrary: tbl)
  case Nil
  then show ?case by simp
next
  case (Cons m keys)
  then have c: "covers imp m = Inr (cov imp m)" by (simp add: covers_eq)
  from Cons have ih: "\<And>tbl. delete_covered imp keys tbl =
      Inr (filter (\<lambda>e. \<not> (fst e \<in> set keys \<and> cov imp (fst e))) tbl)" by simp
  show ?case
    by (auto simp: c ih AList.delete_eq intro!: filter_cong)
qed

lemma delete_covered_keys:
  "\<forall>e\<in>set tbl. length (fst e) = length imp \<Longrightarrow>
   delete_covered imp (map fst tbl) tbl = Inr (filter (\<lambda>e. \<not> cov imp (fst e)) tbl)"
proof -
  assume a: "\<forall>e\<in>set tbl. length (fst e) = length imp"
  then have "\<forall>m\<in>set (map fst tbl). length m = length imp" by simp
  from delete_covered_eq [OF this, of tbl]
  show ?thesis by (auto intro!: filter_cong)
qed

lemma remove_essential_eq:
  "\<forall>i\<in>set imps. length i = L \<Longrightarrow> \<forall>e\<in>set tbl. length (fst e) = L \<Longrightarrow>
   remove_essential imps tbl = Inr (filter (\<lambda>e. \<not> (\<exists>i\<in>set imps. cov i (fst e))) tbl)"
proof (induction imps arbitrary: tbl)
  case Nil
  then show ?case by simp
next
  case (Cons i imps)
  from Cons.prems have d: "delete_covered i (map fst tbl) tbl = Inr (filter (\<lambda>e. \<not> cov i (fst e)) tbl)"
    by (intro delete_covered_keys) simp
  from Cons.prems have "\<forall>e\<in>set (filter (\<lambda>e. \<not> cov i (fst e)) tbl). length (fst e) = L" by simp
  with Cons.IH [of "filter (\<lambda>e. \<not> cov i (fst e)) tbl"] Cons.prems
  have "remove_essential imps (filter (\<lambda>e. \<not> cov i (fst e)) tbl) =
        Inr (filter (\<lambda>e. \<not> (\<exists>j\<in>set imps. cov j (fst e))) (filter (\<lambda>e. \<not> cov i (fst e)) tbl))"
    by simp
  with d show ?case by (auto intro!: filter_cong)
qed

lemma count_covered_eq:
  "\<forall>m\<in>set keys. length m = length p \<Longrightarrow> count_covered p keys = Inr (cnt keys p)"
  by (induction keys) (simp_all add: cnt_def covers_eq)

lemma max_from_ok:
  assumes "\<forall>m\<in>set keys. length m = L" "\<forall>p\<in>set rest. length p = L"
  shows "\<exists>b. max_from best (cnt keys best) rest keys = Inr b \<and> b \<in> insert best (set rest) \<and>
           (\<forall>p\<in>insert best (set rest). cnt keys p \<le> cnt keys b)"
  using assms(2)
proof (induction rest arbitrary: best)
  case Nil
  then show ?case by simp
next
  case (Cons p rest)
  with assms(1) have c: "count_covered p keys = Inr (cnt keys p)"
    by (intro count_covered_eq) simp
  from Cons.prems have r: "\<forall>p\<in>set rest. length p = L" by simp
  show ?case
  proof (cases "cnt keys best < cnt keys p")
    case True
    from Cons.IH [OF r, of p] obtain b where
      "max_from p (cnt keys p) rest keys = Inr b" "b \<in> insert p (set rest)"
      "\<forall>q\<in>insert p (set rest). cnt keys q \<le> cnt keys b" by blast
    with True c show ?thesis by (auto intro: less_imp_le order_trans)
  next
    case False
    from Cons.IH [OF r, of best] obtain b where
      "max_from best (cnt keys best) rest keys = Inr b" "b \<in> insert best (set rest)"
      "\<forall>q\<in>insert best (set rest). cnt keys q \<le> cnt keys b" by blast
    with False c show ?thesis by (auto intro: order_trans)
  qed
qed

lemma max_by_coverage_ok:
  assumes "\<forall>m\<in>set keys. length m = L" "\<forall>p\<in>set pis. length p = L" "pis \<noteq> []"
  shows "\<exists>b. max_by_coverage pis keys = Inr b \<and> b \<in> set pis \<and>
           (\<forall>p\<in>set pis. cnt keys p \<le> cnt keys b)"
proof -
  from assms(3) obtain p rest where pis: "pis = p # rest" by (cases pis) auto
  with assms have c: "count_covered p keys = Inr (cnt keys p)"
    by (intro count_covered_eq) simp
  from assms(2) pis have "\<forall>p\<in>set rest. length p = L" by simp
  from max_from_ok [OF assms(1) this, of p] pis c show ?thesis
    by (simp add: max_by_coverage_def)
qed

lemma greedy_ok:
  assumes "\<forall>p\<in>set pis. length p = L"
  shows "\<forall>e\<in>set tbl. length (fst e) = L \<Longrightarrow> \<forall>e\<in>set tbl. \<exists>p\<in>set pis. cov p (fst e) \<Longrightarrow>
         \<exists>chosen'. greedy pis tbl chosen = Some (Inr chosen') \<and> chosen \<subseteq> chosen' \<and>
           chosen' \<subseteq> chosen \<union> set pis \<and> (\<forall>e\<in>set tbl. \<exists>c\<in>chosen'. cov c (fst e))"
proof (induction "length tbl" arbitrary: tbl chosen rule: less_induct)
  case less
  show ?case
  proof (cases "tbl = []")
    case True
    then show ?thesis by (subst greedy.simps) simp
  next
    case False
    then obtain e0 where e0: "e0 \<in> set tbl" by (cases tbl) auto
    with less.prems obtain p0 where p0: "p0 \<in> set pis" "cov p0 (fst e0)" by blast
    then have ne: "pis \<noteq> []" by auto
    have keys: "\<forall>m\<in>set (map fst tbl). length m = L" using less.prems(1) by simp
    from max_by_coverage_ok [OF keys assms ne] obtain b where b:
      "max_by_coverage pis (map fst tbl) = Inr b" "b \<in> set pis"
      "\<forall>p\<in>set pis. cnt (map fst tbl) p \<le> cnt (map fst tbl) b" by blast
    from e0 p0 have "fst e0 \<in> set (filter (cov p0) (map fst tbl))" by simp
    then have "filter (cov p0) (map fst tbl) \<noteq> []" by (metis empty_iff empty_set)
    then have "0 < cnt (map fst tbl) p0"
      unfolding cnt_def by (simp only: length_greater_0_conv simp_thms)
    with b(3) p0(1) have "0 < cnt (map fst tbl) b" by force
    then have "filter (cov b) (map fst tbl) \<noteq> []"
      unfolding cnt_def by (simp only: length_greater_0_conv simp_thms)
    then obtain e1 where e1: "e1 \<in> set tbl" "cov b (fst e1)"
      by (auto simp: filter_empty_conv)
    let ?tbl' = "filter (\<lambda>e. \<not> cov b (fst e)) tbl"
    from b(2) assms less.prems(1) have "\<forall>e\<in>set tbl. length (fst e) = length b" by simp
    then have d: "delete_covered b (map fst tbl) tbl = Inr ?tbl'"
      by (rule delete_covered_keys)
    from e1 have shorter: "length ?tbl' < length tbl"
      by (intro length_filter_less) auto
    from less.prems have p1: "\<forall>e\<in>set ?tbl'. length (fst e) = L"
      and p2: "\<forall>e\<in>set ?tbl'. \<exists>p\<in>set pis. cov p (fst e)" by simp_all
    from less.hyps [OF shorter p1 p2, of "insert b chosen"] obtain chosen' where c:
      "greedy pis ?tbl' (insert b chosen) = Some (Inr chosen')" "insert b chosen \<subseteq> chosen'"
      "chosen' \<subseteq> insert b chosen \<union> set pis" "\<forall>e\<in>set ?tbl'. \<exists>c\<in>chosen'. cov c (fst e)"
      by blast
    have "\<forall>e\<in>set tbl. \<exists>c\<in>chosen'. cov c (fst e)"
    proof
      fix e assume e: "e \<in> set tbl"
      show "\<exists>c\<in>chosen'. cov c (fst e)"
      proof (cases "cov b (fst e)")
        case True
        with c(2) show ?thesis by auto
      next
        case False
        with e have "e \<in> set ?tbl'" by simp
        with c(4) show ?thesis by blast
      qed
    qed
    with c b(1,2) d False show ?thesis
      by (subst greedy.simps) auto
  qed
qed

lemma bits_symbols: "bits \<subseteq> symbols"
  by (auto simp: bits_def symbols_def)

lemma merge_inv_init:
  assumes "finite B"
  shows "merge_inv L B B {}"
proof -
  have "implicant_of B t" if "t \<in> B" "\<forall>s\<in>B. set s \<subseteq> bits" for t
  proof -
    from that have tb: "set t \<subseteq> bits" by simp
    with bits_symbols have "set t \<subseteq> symbols" by blast
    moreover have "s \<in> B" if "cov t s" for s
      using cov_bits_eq [OF tb that] \<open>t \<in> B\<close> by simp
    ultimately show ?thesis by (simp add: implicant_of_def)
  qed
  with assms show ?thesis
    unfolding merge_inv_def using cov_refl by auto
qed

lemma merge_inv_step:
  assumes len: "\<forall>t\<in>T. length t = L" and inv: "merge_inv L B T P"
  shows "merge_inv L B (next_terms T) (P \<union> (T - used_terms T))"
proof -
  from inv have fin: "finite T" "finite P" and lenP: "\<forall>p\<in>P. length p = L"
    and cover: "\<forall>s\<in>B. \<exists>t\<in>T \<union> P. cov t s"
    and impl: "(\<forall>s\<in>B. set s \<subseteq> bits) \<longrightarrow> (\<forall>t\<in>T \<union> P. implicant_of B t)"
    by (simp_all add: merge_inv_def)
  have c1: "\<forall>s\<in>B. \<exists>t\<in>next_terms T \<union> (P \<union> (T - used_terms T)). cov t s"
  proof
    fix s assume "s \<in> B"
    with cover obtain t where t: "t \<in> T \<union> P" "cov t s" by blast
    show "\<exists>t\<in>next_terms T \<union> (P \<union> (T - used_terms T)). cov t s"
    proof (cases "t \<in> used_terms T")
      case True
      then obtain b where b: "t \<in> T" "b \<in> T" "ndiff t b = 1"
        by (auto simp: used_terms_def)
      with len have "length t = length b" by simp
      from cov_merged [OF this cov_length [OF t(2)] t(2)] have "cov (merged t b) s" .
      moreover from b have "merged t b \<in> next_terms T"
        by (force simp: next_terms_def)
      ultimately show ?thesis by blast
    next
      case False
      with t show ?thesis by blast
    qed
  qed
  have c2: "\<forall>t\<in>next_terms T \<union> (P \<union> (T - used_terms T)). implicant_of B t"
    if good: "\<forall>s\<in>B. set s \<subseteq> bits"
  proof
    fix t assume t: "t \<in> next_terms T \<union> (P \<union> (T - used_terms T))"
    from impl good have old: "\<forall>t\<in>T \<union> P. implicant_of B t" by simp
    show "implicant_of B t"
    proof (cases "t \<in> next_terms T")
      case True
      then obtain a b where ab: "a \<in> T" "b \<in> T" "ndiff a b = 1" "t = merged a b"
        by (auto simp: next_terms_def)
      with len have l: "length a = length b" by simp
      from old ab have ia: "implicant_of B a" and ib: "implicant_of B b" by simp_all
      then have sa: "set a \<subseteq> symbols" and sb: "set b \<subseteq> symbols"
        by (simp_all add: implicant_of_def)
      have "set t \<subseteq> symbols"
        using set_merged [of a b] sa ab(4) by (auto simp: symbols_def)
      moreover have "s \<in> B" if "set s \<subseteq> bits" "cov t s" for s
      proof -
        from cov_merged_split [OF l ab(3) sa sb that(1)] that(2) ab(4)
        have "cov a s \<or> cov b s" by simp
        with ia ib that(1) show ?thesis by (auto simp: implicant_of_def)
      qed
      ultimately show ?thesis by (simp add: implicant_of_def)
    next
      case False
      with t old show ?thesis by blast
    qed
  qed
  from fin lenP len c1 c2 show ?thesis
    unfolding merge_inv_def by (auto simp: next_terms_finite)
qed

lemma merge_loop_uniform:
  assumes "finite B" "\<forall>t\<in>B. length t = L"
  shows "\<exists>P k. merge_loop B {} 0 = Some (Inr (P, k)) \<and> k \<le> Suc L \<and> merge_inv L B {} P"
proof -
  have d: "\<forall>t\<in>B. 0 \<le> dashes t" by simp
  from merge_loop_rule [where I = "merge_inv L B" and k = 0, OF assms(2) d merge_inv_init [OF assms(1)]]
    merge_inv_step
  show ?thesis by simp
qed

lemma minimize_unfold:
  assumes "merge_loop (set (minterms_to_binary n (ms @ dcs))) {} 0 = Some (Inr (P, k))"
    and "build_table (e P) (minterms_to_binary n ms) [] = Inr tbl"
    and "remove_essential (e (essential_of tbl)) tbl = Inr rem"
    and "greedy (e P) rem (essential_of tbl) = Some (Inr chosen)"
  shows "minimize e n ms dcs = Some (Inr (sorted_list_of_set chosen))"
  using assms by (simp add: minimize_def simplify_def init_def)

lemma minimize_mixed:
  assumes "a \<in> set (minterms_to_binary n (ms @ dcs))" "b \<in> set (minterms_to_binary n (ms @ dcs))"
    "length a \<noteq> length b"
  shows "minimize e n ms dcs = Some (Inl IndexError)"
  using merge_loop_mixed [OF assms, of "{}" 0]
  by (simp add: minimize_def simplify_def init_def)

lemma build_table_empty:
  assumes "\<forall>p\<in>set pis. length p = L" "\<forall>m\<in>set mbs. length m = L"
  shows "\<exists>tbl. build_table pis mbs [] = Inr tbl \<and> distinct (map fst tbl) \<and>
           set tbl = (\<lambda>m. (m, coverers pis m)) ` set mbs"
proof -
  from build_table_ok [OF assms, of "[]"] obtain tbl where
    t: "build_table pis mbs [] = Inr tbl" "distinct (map fst tbl)"
    "map_of tbl = (\<lambda>m. if m \<in> set mbs then Some (coverers pis m) else map_of [] m)"
    by auto
  have "(\<lambda>m. if m \<in> set mbs then Some (coverers pis m) else map_of [] m) =
        (\<lambda>m. if m \<in> set mbs then Some (coverers pis m) else None)"
    by (rule ext) simp
  with t(3) have "map_of tbl = (\<lambda>m. if m \<in> set mbs then Some (coverers pis m) else None)"
    by (rule trans)
  from table_set [OF t(2) this] t(1,2) show ?thesis by blast
qed

lemma run_uniform:
  assumes en: "valid_enum e"
    and uni: "\<forall>t\<in>set (minterms_to_binary n (ms @ dcs)). length t = L"
  obtains P k tbl chosen where
    "merge_loop (set (minterms_to_binary n (ms @ dcs))) {} 0 = Some (Inr (P, k))"
    "k \<le> Suc L"
    "merge_inv L (set (minterms_to_binary n (ms @ dcs))) {} P"
    "build_table (e P) (minterms_to_binary n ms) [] = Inr tbl"
    "distinct (map fst tbl)"
    "set tbl = (\<lambda>m. (m, coverers (e P) m)) ` set (minterms_to_binary n ms)"
    "essential_of tbl \<subseteq> chosen" "chosen \<subseteq> P"
    "\<forall>m\<in>set (minterms_to_binary n ms). \<exists>c\<in>chosen. cov c m"
    "minimize e n ms dcs = Some (Inr (sorted_list_of_set chosen))"
    "remove_essential (e (essential_of tbl)) tbl =
       Inr (filter (\<lambda>en. \<not> (\<exists>i\<in>essential_of tbl. cov i (fst en))) tbl)"
    "greedy (e P) (filter (\<lambda>en. \<not> (\<exists>i\<in>essential_of tbl. cov i (fst en))) tbl)
       (essential_of tbl) = Some (Inr chosen)"
proof -
  let ?B = "set (minterms_to_binary n (ms @ dcs))"
  let ?M = "minterms_to_binary n ms"
  have sub: "set ?M \<subseteq> ?B" by (auto simp: minterms_to_binary_def)
  from merge_loop_uniform [OF _ uni] obtain P k where
    loop: "merge_loop ?B {} 0 = Some (Inr (P, k))" and k: "k \<le> Suc L"
    and inv: "merge_inv L ?B {} P" by auto
  from inv have finP: "finite P" and lenP: "\<forall>p\<in>P. length p = L"
    and cover: "\<forall>s\<in>?B. \<exists>t\<in>P. cov t s" by (simp_all add: merge_inv_def)
  from en finP have eP: "set (e P) = P" "distinct (e P)" by (simp_all add: valid_enum_def)
  from lenP eP have len1: "\<forall>p\<in>set (e P). length p = L" by simp
  from uni sub have len2: "\<forall>m\<in>set ?M. length m = L" by blast
  from build_table_empty [OF len1 len2] obtain tbl where
    tbl: "build_table (e P) ?M [] = Inr tbl" and dist: "distinct (map fst tbl)"
    and st: "set tbl = (\<lambda>m. (m, coverers (e P) m)) ` set ?M"
    by blast
  let ?E = "essential_of tbl"
  have E: "?E = {x. \<exists>m\<in>set ?M. coverers (e P) m = [x]}"
    using st by (rule essential_of_set)
  have EP: "?E \<subseteq> P"
  proof
    fix x assume "x \<in> ?E"
    then obtain m where "coverers (e P) m = [x]" unfolding E by blast
    then have "x \<in> set (coverers (e P) m)" by simp
    with eP show "x \<in> P" by (simp add: coverers_def)
  qed
  from EP finP have finE: "finite ?E" by (rule finite_subset)
  with en have eE: "set (e ?E) = ?E" by (simp add: valid_enum_def)
  from eE EP lenP have len3: "\<forall>i\<in>set (e ?E). length i = L" by blast
  from st len2 have len4: "\<forall>en\<in>set tbl. length (fst en) = L" by auto
  let ?rem = "filter (\<lambda>en. \<not> (\<exists>i\<in>set (e ?E). cov i (fst en))) tbl"
  from remove_essential_eq [OF len3 len4] have rem: "remove_essential (e ?E) tbl = Inr ?rem" .
  from len4 have len5: "\<forall>en\<in>set ?rem. length (fst en) = L" by simp
  have cov5: "\<forall>en\<in>set ?rem. \<exists>p\<in>set (e P). cov p (fst en)"
  proof
    fix en assume "en \<in> set ?rem"
    then have "en \<in> set tbl" by simp
    with st have "fst en \<in> set ?M" by auto
    with sub cover eP show "\<exists>p\<in>set (e P). cov p (fst en)" by blast
  qed
  from greedy_ok [OF len1 len5 cov5, of ?E] obtain chosen where
    g: "greedy (e P) ?rem ?E = Some (Inr chosen)" and c1: "?E \<subseteq> chosen"
    and c2: "chosen \<subseteq> ?E \<union> set (e P)" and c3: "\<forall>en\<in>set ?rem. \<exists>c\<in>chosen. cov c (fst en)"
    by blast
  from c2 EP eP have cP: "chosen \<subseteq> P" by blast
  have all: "\<forall>m\<in>set ?M. \<exists>c\<in>chosen. cov c m"
  proof
    fix m assume m: "m \<in> set ?M"
    then have en: "(m, coverers (e P) m) \<in> set tbl" unfolding st by (rule imageI)
    show "\<exists>c\<in>chosen. cov c m"
    proof (cases "\<exists>i\<in>set (e ?E). cov i m")
      case True
      with eE c1 show ?thesis by blast
    next
      case False
      with en have "(m, coverers (e P) m) \<in> set ?rem" by simp
      with c3 show ?thesis by force
    qed
  qed
  from minimize_unfold [OF loop tbl rem g]
  have res: "minimize e n ms dcs = Some (Inr (sorted_list_of_set chosen))" .
  show ?thesis
    by (rule that [OF loop k inv tbl dist st c1 cP all res rem [unfolded eE] g [unfolded eE]])
qed

lemma next_terms_list: "next_terms (set xs) = set (next_list xs)"
proof -
  have "{p \<in> set xs \<times> set xs. ndiff (fst p) (snd p) = 1} =
        set (concat (map (\<lambda>a. map (Pair a) (filter (\<lambda>b. ndiff a b = 1) xs)) xs))"
    by auto
  then have "next_terms (set xs) =
        (\<lambda>p. merged (fst p) (snd p)) ` set (concat (map (\<lambda>a. map (Pair a) (filter (\<lambda>b. ndiff a b = 1) xs)) xs))"
    by (simp only: next_terms_def)
  also have "\<dots> = set (next_list xs)"
    by (simp add: next_list_def image_UN image_image)
  finally show ?thesis .
qed

lemma unused_terms_list: "set xs - used_terms (set xs) = set (unused_list xs)"
  by (auto simp: used_terms_def unused_list_def)

lemma merge_loop_step_list:
  assumes "xs \<noteq> []" "\<forall>t\<in>set xs. length t = L"
  shows "merge_loop (set xs) P k =
         merge_loop (set (remdups (next_list xs))) (P \<union> set (unused_list xs)) (Suc k)"
proof -
  from assms(1) have ne: "set xs \<noteq> {}" by simp
  from merge_round_uniform [OF assms(2)] ne show ?thesis
    by (subst merge_loop.simps) (simp add: next_terms_list unused_terms_list)
qed

section \<open>The claims\<close>

subsection \<open>Shared facts\<close>

lemma valid_enum_sorted: "valid_enum sorted_list_of_set"
  by (simp add: valid_enum_def)

lemma valid_enum_descending: "valid_enum descending"
  by (simp add: valid_enum_def descending_def)

lemma valid_input_uniform:
  assumes "valid_input n ms dcs"
  shows "\<forall>t\<in>set (minterms_to_binary n (ms @ dcs)). length t = max 1 n \<and> set t \<subseteq> bits"
proof -
  from assms have "in_range n (ms @ dcs)" by (auto simp: valid_input_def in_range_def)
  then show ?thesis by (rule in_range_uniform)
qed

lemma in_range_both_uniform:
  assumes "in_range n ms" "in_range n dcs"
  shows "\<forall>t\<in>set (minterms_to_binary n (ms @ dcs)). length t = max 1 n \<and> set t \<subseteq> bits"
proof -
  from assms have "in_range n (ms @ dcs)" by (auto simp: in_range_def)
  then show ?thesis by (rule in_range_uniform)
qed

lemma encode_in_binary: "m \<in> set ms \<Longrightarrow> encode n m \<in> set (minterms_to_binary n ms)"
  by (simp add: minterms_to_binary_def)

lemma chosen_sorted:
  assumes "chosen \<subseteq> P" "merge_inv L B {} P"
  shows "set (sorted_list_of_set chosen) = chosen"
proof -
  from assms(2) have "finite P" by (simp add: merge_inv_def)
  with assms(1) have "finite chosen" by (rule finite_subset)
  then show ?thesis by simp
qed

subsection \<open>Soundness of the cover\<close>

text \<open>
  C1. For every valid input and every admissible enumeration the minimisation returns a
  term sequence, and every minterm of the input is matched by at least one of its terms.
\<close>

theorem soundness_of_cover:
  assumes "valid_enum enum" "valid_input n ms dcs"
  shows "\<exists>ts. minimize enum n ms dcs = Some (Inr ts) \<and>
           (\<forall>m\<in>set ms. \<exists>t\<in>set ts. covers t (encode n m) = Inr True)"
proof -
  from valid_input_uniform [OF assms(2)]
  have uni: "\<forall>t\<in>set (minterms_to_binary n (ms @ dcs)). length t = max 1 n" by simp
  show ?thesis
  proof (rule run_uniform [OF assms(1) uni], goal_cases)
    case (1 P k tbl chosen)
    note inv = 1(3) and sub = 1(8) and all = 1(9) and res = 1(10)
    have "\<exists>t\<in>set (sorted_list_of_set chosen). covers t (encode n m) = Inr True"
      if "m \<in> set ms" for m
    proof -
      from that have "encode n m \<in> set (minterms_to_binary n ms)" by (rule encode_in_binary)
      with all obtain c where c: "c \<in> chosen" "cov c (encode n m)" by blast
      from covers_eq [OF cov_length [OF c(2)]] c(2) have "covers c (encode n m) = Inr True"
        by simp
      with c(1) chosen_sorted [OF sub inv] show ?thesis by blast
    qed
    with res show ?thesis by blast
  qed
qed

theorem soundness_of_cover_witness:
  "valid_enum sorted_list_of_set \<and> valid_input 2 [1] [0, 3] \<and>
   (\<exists>ts. minimize sorted_list_of_set 2 [1] [0, 3] = Some (Inr ts) \<and>
      (\<forall>m\<in>set [1]. \<exists>t\<in>set ts. covers t (encode 2 m) = Inr True))"
proof -
  have e: "valid_enum sorted_list_of_set" by (simp add: valid_enum_def)
  have v: "valid_input 2 [1] [0, 3]" by (simp add: valid_input_def in_range_def)
  from soundness_of_cover [OF e v] e v show ?thesis by blast
qed

lemma merge_inv_implicants:
  assumes "merge_inv L B {} P" "\<forall>s\<in>B. set s \<subseteq> bits" "t \<in> P"
  shows "length t = L" "implicant_of B t"
  using assms by (simp_all add: merge_inv_def)

lemma merge_inv_covered:
  assumes "merge_inv L B {} P" "s \<in> B"
  shows "\<exists>p\<in>P. cov p s"
  using assms by (simp add: merge_inv_def)

subsection \<open>Non-overreach\<close>

text \<open>
  C2. For every valid input the minimisation returns a term sequence, and a term of it
  matches the encoding of an index of \<open>[0, 2^n)\<close> only if that index is a minterm or a
  don't-care of the input.
\<close>

theorem non_overreach:
  assumes "valid_enum enum" "valid_input n ms dcs"
  shows "\<exists>ts. minimize enum n ms dcs = Some (Inr ts) \<and>
           (\<forall>t\<in>set ts. \<forall>i. 0 \<le> i \<and> i < 2 ^ n \<and> covers t (encode n i) = Inr True
                \<longrightarrow> i \<in> set ms \<union> set dcs)"
proof -
  let ?B = "set (minterms_to_binary n (ms @ dcs))"
  from valid_input_uniform [OF assms(2)]
  have uni: "\<forall>t\<in>?B. length t = max 1 n" and bin: "\<forall>t\<in>?B. set t \<subseteq> bits" by simp_all
  from assms(2) have nonneg: "\<forall>j\<in>set (ms @ dcs). 0 \<le> j"
    by (auto simp: valid_input_def in_range_def)
  show ?thesis
  proof (rule run_uniform [OF assms(1) uni], goal_cases)
    case (1 P k tbl chosen)
    note inv = 1(3) and sub = 1(8) and res = 1(10)
    have "i \<in> set ms \<union> set dcs"
      if t: "t \<in> set (sorted_list_of_set chosen)" and i: "0 \<le> i" "i < 2 ^ n"
        and c: "covers t (encode n i) = Inr True" for t i
    proof -
      from t chosen_sorted [OF sub inv] sub have tP: "t \<in> P" by blast
      from merge_inv_implicants [OF inv bin tP]
      have lt: "length t = max 1 n" and it: "implicant_of ?B t" .
      from i have le: "length (encode n i) = max 1 n" by (rule encode_length)
      from covers_eq [of t "encode n i"] lt le c have "cov t (encode n i)" by simp
      with it encode_bits [OF i(1)] have "encode n i \<in> ?B" by (simp add: implicant_of_def)
      then obtain j where j: "j \<in> set (ms @ dcs)" "encode n i = encode n j"
        by (auto simp: minterms_to_binary_def)
      with nonneg have "0 \<le> j" by blast
      from encode_inj [OF i(1) this j(2)] j(1) show ?thesis by simp
    qed
    with res show ?thesis by blast
  qed
qed

theorem non_overreach_witness:
  "valid_enum sorted_list_of_set \<and> valid_input 2 [1] [0, 3] \<and>
   (\<exists>ts. minimize sorted_list_of_set 2 [1] [0, 3] = Some (Inr ts) \<and>
      (\<forall>t\<in>set ts. \<forall>i. 0 \<le> i \<and> i < 2 ^ 2 \<and> covers t (encode 2 i) = Inr True
           \<longrightarrow> i \<in> set [1] \<union> set [0, 3]))"
proof -
  have e: "valid_enum sorted_list_of_set" by (simp add: valid_enum_def)
  have v: "valid_input 2 [1] [0, 3]" by (simp add: valid_input_def in_range_def)
  from non_overreach [OF e v] e v show ?thesis by blast
qed

subsection \<open>Width and alphabet of the output\<close>

text \<open>
  C10, as stated, fails for zero variables: the index \<open>0\<close> is in \<open>[0, 2^0)\<close>, and
  \<open>bin(0)[2:].zfill(0)\<close> is the one-character string \<open>0\<close>, which is what the
  minimisation returns.
\<close>

theorem fixed_width_counterexample:
  "valid_input 0 [0] [] \<and> minimize sorted_list_of_set 0 [0] [] = Some (Inr [''0'']) \<and>
   length ''0'' \<noteq> (0::nat)"
proof -
  have "valid_input 0 [0] []" by (simp add: valid_input_def in_range_def)
  moreover have "minimize sorted_list_of_set 0 [0] [] = Some (Inr [''0''])" by code_simp
  ultimately show ?thesis by simp
qed

text \<open>
  C10, amended. For every input whose minterm and don't-care indices all lie in
  \<open>[0, 2^num_variables)\<close> (the two lists may overlap) every returned term has length
  \<open>max 1 num_variables\<close> (so \<open>num_variables\<close> when there is at least one variable) and
  consists of the symbols \<open>0\<close>, \<open>1\<close> and \<open>-\<close> only.
\<close>

theorem fixed_width_output:
  assumes "valid_enum enum" "in_range n ms" "in_range n dcs"
  shows "\<exists>ts. minimize enum n ms dcs = Some (Inr ts) \<and>
           (\<forall>t\<in>set ts. length t = max 1 n \<and> set t \<subseteq> {CHR ''0'', CHR ''1'', CHR ''-''})"
proof -
  let ?B = "set (minterms_to_binary n (ms @ dcs))"
  from in_range_both_uniform [OF assms(2,3)]
  have uni: "\<forall>t\<in>?B. length t = max 1 n" and bin: "\<forall>t\<in>?B. set t \<subseteq> bits" by simp_all
  show ?thesis
  proof (rule run_uniform [OF assms(1) uni], goal_cases)
    case (1 P k tbl chosen)
    note inv = 1(3) and sub = 1(8) and res = 1(10)
    have "length t = max 1 n \<and> set t \<subseteq> {CHR ''0'', CHR ''1'', CHR ''-''}"
      if "t \<in> set (sorted_list_of_set chosen)" for t
    proof -
      from that chosen_sorted [OF sub inv] sub have tP: "t \<in> P" by blast
      from merge_inv_implicants [OF inv bin tP] show ?thesis
        by (simp add: implicant_of_def symbols_def)
    qed
    with res show ?thesis by blast
  qed
qed

theorem fixed_width_output_witness:
  "valid_enum sorted_list_of_set \<and> in_range 2 [1] \<and> in_range 2 [1, 3] \<and>
   (\<exists>ts. minimize sorted_list_of_set 2 [1] [1, 3] = Some (Inr ts) \<and>
      (\<forall>t\<in>set ts. length t = max 1 2 \<and> set t \<subseteq> {CHR ''0'', CHR ''1'', CHR ''-''}))"
proof -
  have e: "valid_enum sorted_list_of_set" by (simp add: valid_enum_def)
  have m: "in_range 2 [1]" by (simp add: in_range_def)
  have d: "in_range 2 [1, 3]" by (simp add: in_range_def)
  note r = fixed_width_output [OF e m d]
  show ?thesis by (rule conjI [OF e conjI [OF m conjI [OF d r]]])
qed

subsection \<open>Termination of the merging loop\<close>

text \<open>
  C3, as stated, fails: with one variable and the minterms \<open>0\<close> and \<open>1\<close> the loop body
  runs twice, once on \<open>{0, 1}\<close> and once on \<open>{-}\<close>, which is more than the width \<open>1\<close>.
\<close>

theorem merge_rounds_counterexample:
  "valid_input 1 [0, 1] [] \<and>
   merge_loop (set (minterms_to_binary 1 ([0, 1] @ []))) {} 0 = Some (Inr ({''-''}, 2)) \<and>
   (1::nat) < 2"
proof -
  have "valid_input 1 [0, 1] []" by (simp add: valid_input_def in_range_def)
  moreover have
    "merge_loop (set (minterms_to_binary 1 ([0, 1] @ []))) {} 0 = Some (Inr ({''-''}, 2))"
    by code_simp
  ultimately show ?thesis by simp
qed

text \<open>
  C3, amended. For every input whose minterm and don't-care indices all lie in
  \<open>[0, 2^num_variables)\<close> (the two lists may overlap) the merging loop terminates
  without an exception after at most \<open>num_variables + 1\<close> executions of its body: the
  terms of the working set of round \<open>k\<close> have at least \<open>k\<close> wildcards, and a term has no
  more wildcards than positions.
\<close>

theorem merge_loop_terminates:
  assumes "in_range n ms" "in_range n dcs"
  shows "\<exists>P k. merge_loop (set (minterms_to_binary n (ms @ dcs))) {} 0 = Some (Inr (P, k)) \<and>
           k \<le> n + 1"
proof (cases "n = 0")
  case False
  let ?B = "set (minterms_to_binary n (ms @ dcs))"
  from in_range_both_uniform [OF assms] False have "\<forall>t\<in>?B. length t = n" by simp
  from merge_loop_uniform [OF _ this] show ?thesis by auto
next
  case True
  let ?B = "set (minterms_to_binary n (ms @ dcs))"
  from assms True have zero: "\<forall>i\<in>set (ms @ dcs). i = 0"
    by (auto simp: in_range_def)
  have enc: "encode 0 0 = ''0''"
    by (simp add: encode_nonneg bin_digits_zero)
  have sub: "?B \<subseteq> {''0''}"
  proof
    fix t assume "t \<in> ?B"
    then obtain i where i: "i \<in> set (ms @ dcs)" "t = encode n i"
      unfolding minterms_to_binary_def by auto
    from zero i(1) have "i = 0" by blast
    with i(2) True enc show "t \<in> {''0''}" by simp
  qed
  show ?thesis
  proof (cases "?B = {}")
    case True
    then show ?thesis by (subst merge_loop.simps) simp
  next
    case False
    with sub have B: "?B = {''0''}" by (simp only: subset_singleton_iff) simp
    have "\<forall>t\<in>{''0''}. length t = 1" by simp
    from merge_round_uniform [OF this]
    have r: "merge_round {''0''} = Inr (next_terms {''0''}, used_terms {''0''})" .
    have nx: "next_terms {''0''} = {}"
      by (simp add: next_terms_def ndiff_same)
    have "merge_loop {''0''} {} 0 = merge_loop {} ({} \<union> ({''0''} - used_terms {''0''})) (Suc 0)"
      by (subst merge_loop.simps) (simp add: r nx)
    also have "\<dots> = Some (Inr ({} \<union> ({''0''} - used_terms {''0''}), Suc 0))"
      by (subst merge_loop.simps) simp
    finally show ?thesis unfolding B by simp
  qed
qed

theorem merge_loop_terminates_witness:
  "in_range 1 [0, 1] \<and> in_range 1 [1] \<and>
   (\<exists>P k. merge_loop (set (minterms_to_binary 1 ([0, 1] @ [1]))) {} 0 = Some (Inr (P, k)) \<and>
      k \<le> 1 + 1)"
proof -
  have m: "in_range 1 [0, 1]" by (simp add: in_range_def)
  have d: "in_range 1 [1]" by (simp add: in_range_def)
  note r = merge_loop_terminates [OF m d]
  show ?thesis by (rule conjI [OF m conjI [OF d r]])
qed

subsection \<open>The coverage table has no empty entry\<close>

text \<open>
  C4. For every valid input the merging loop returns a set of prime implicants, the
  coverage table is built without an exception, and the table maps every minterm of
  the input to a non-empty list of prime implicants, each of which matches it.
\<close>

theorem coverage_table_nonempty:
  assumes "valid_enum enum" "valid_input n ms dcs"
  shows "\<exists>P k table.
           merge_loop (set (minterms_to_binary n (ms @ dcs))) {} 0 = Some (Inr (P, k)) \<and>
           build_table (enum P) (minterms_to_binary n ms) [] = Inr table \<and>
           (\<forall>m\<in>set ms. \<exists>implicants.
               map_of table (encode n m) = Some implicants \<and> implicants \<noteq> [] \<and>
               (\<forall>p\<in>set implicants. p \<in> P \<and> covers p (encode n m) = Inr True))"
proof -
  let ?B = "set (minterms_to_binary n (ms @ dcs))"
  from valid_input_uniform [OF assms(2)]
  have uni: "\<forall>t\<in>?B. length t = max 1 n" by simp
  show ?thesis
  proof (rule run_uniform [OF assms(1) uni], goal_cases)
    case (1 P k tbl chosen)
    note loop = 1(1) and inv = 1(3) and built = 1(4) and dist = 1(5) and st = 1(6)
    from inv have "finite P" by (simp add: merge_inv_def)
    with assms(1) have eP: "set (enum P) = P" by (simp add: valid_enum_def)
    have "\<exists>implicants. map_of tbl (encode n m) = Some implicants \<and> implicants \<noteq> [] \<and>
            (\<forall>p\<in>set implicants. p \<in> P \<and> covers p (encode n m) = Inr True)"
      if m: "m \<in> set ms" for m
    proof -
      let ?s = "encode n m"
      from m have sM: "?s \<in> set (minterms_to_binary n ms)" by (rule encode_in_binary)
      then have "(?s, coverers (enum P) ?s) \<in> set tbl" unfolding st by (rule imageI)
      with dist have look: "map_of tbl ?s = Some (coverers (enum P) ?s)" by simp
      from m have "?s \<in> ?B" by (simp add: minterms_to_binary_def)
      from merge_inv_covered [OF inv this] obtain p where "p \<in> P" "cov p ?s" by blast
      with eP have "p \<in> set (coverers (enum P) ?s)" by (simp add: coverers_def)
      then have ne: "coverers (enum P) ?s \<noteq> []" by auto
      have "p \<in> P \<and> covers p ?s = Inr True" if "p \<in> set (coverers (enum P) ?s)" for p
      proof -
        from that eP have p: "p \<in> P" "cov p ?s" by (simp_all add: coverers_def)
        from covers_eq [OF cov_length [OF p(2)]] p show ?thesis by simp
      qed
      with look ne show ?thesis by blast
    qed
    with loop built show ?thesis by blast
  qed
qed

theorem coverage_table_nonempty_witness:
  "valid_enum sorted_list_of_set \<and> valid_input 2 [1] [0, 3] \<and>
   (\<exists>P k table.
      merge_loop (set (minterms_to_binary 2 ([1] @ [0, 3]))) {} 0 = Some (Inr (P, k)) \<and>
      build_table (sorted_list_of_set P) (minterms_to_binary 2 [1]) [] = Inr table \<and>
      (\<forall>m\<in>set [1]. \<exists>implicants.
          map_of table (encode 2 m) = Some implicants \<and> implicants \<noteq> [] \<and>
          (\<forall>p\<in>set implicants. p \<in> P \<and> covers p (encode 2 m) = Inr True)))"
proof -
  have e: "valid_enum sorted_list_of_set" by (simp add: valid_enum_def)
  have v: "valid_input 2 [1] [0, 3]" by (simp add: valid_input_def in_range_def)
  from coverage_table_nonempty [OF e v] e v show ?thesis by blast
qed

lemma distinct_singleton_set:
  assumes "distinct xs" "set xs = {x}"
  shows "xs = [x]"
proof (cases xs)
  case Nil
  with assms show ?thesis by simp
next
  case (Cons y ys)
  with assms(2) have y: "y = x" by auto
  have "ys = []"
  proof (cases ys)
    case Nil
    then show ?thesis .
  next
    case (Cons z zs)
    with \<open>xs = y # ys\<close> assms(2) have "z = x" by auto
    with Cons \<open>xs = y # ys\<close> y assms(1) show ?thesis by simp
  qed
  with Cons y show ?thesis by simp
qed

subsection \<open>Essential implicants are kept\<close>

text \<open>
  C8. For every valid input, a prime implicant that is the only one to match some
  minterm of the input is in the essential set read off the coverage table, and the
  returned sequence contains the whole essential set: the greedy phase only adds.
\<close>

theorem essential_implicants_kept:
  assumes "valid_enum enum" "valid_input n ms dcs"
    and "merge_loop (set (minterms_to_binary n (ms @ dcs))) {} 0 = Some (Inr (P, k))"
    and "m \<in> set ms" "p \<in> P" "covers p (encode n m) = Inr True"
    and "\<forall>q\<in>P. covers q (encode n m) = Inr True \<longrightarrow> q = p"
  shows "\<exists>ts table. minimize enum n ms dcs = Some (Inr ts) \<and>
           build_table (enum P) (minterms_to_binary n ms) [] = Inr table \<and>
           p \<in> essential_of table \<and> essential_of table \<subseteq> set ts"
proof -
  let ?B = "set (minterms_to_binary n (ms @ dcs))"
  let ?s = "encode n m"
  from valid_input_uniform [OF assms(2)]
  have uni: "\<forall>t\<in>?B. length t = max 1 n" by simp
  show ?thesis
  proof (rule run_uniform [OF assms(1) uni], goal_cases)
    case (1 P' k' tbl chosen)
    from 1(1) assms(3) have same: "P' = P" by simp
    note inv = 1(3) [unfolded same] and built = 1(4) [unfolded same]
      and st = 1(6) [unfolded same] and ess = 1(7) and sub = 1(8) [unfolded same]
      and res = 1(10)
    from inv have finP: "finite P" and lenP: "\<forall>q\<in>P. length q = max 1 n"
      by (simp_all add: merge_inv_def)
    from assms(1) finP have eP: "set (enum P) = P" "distinct (enum P)"
      by (simp_all add: valid_enum_def)
    from assms(4) have sB: "?s \<in> ?B" by (simp add: minterms_to_binary_def)
    with uni have ls: "length ?s = max 1 n" by blast
    have iff: "cov q ?s \<longleftrightarrow> q = p" if "q \<in> P" for q
    proof -
      from that lenP ls have "length q = length ?s" by simp
      from covers_eq [OF this] assms(6,7) that show ?thesis by auto
    qed
    have "set (coverers (enum P) ?s) = {p}"
      using eP(1) iff assms(5) by (auto simp: coverers_def)
    moreover have "distinct (coverers (enum P) ?s)"
      using eP(2) by (simp add: coverers_def)
    ultimately have one: "coverers (enum P) ?s = [p]"
      by (intro distinct_singleton_set)
    from assms(4) have "?s \<in> set (minterms_to_binary n ms)" by (rule encode_in_binary)
    with one essential_of_set [OF st] have "p \<in> essential_of tbl" by blast
    moreover from ess chosen_sorted [OF sub inv]
    have "essential_of tbl \<subseteq> set (sorted_list_of_set chosen)" by simp
    ultimately show ?thesis using res built by blast
  qed
qed

theorem essential_implicants_kept_witness:
  "valid_enum sorted_list_of_set \<and> valid_input 2 [0, 1, 3] [] \<and>
   merge_loop (set (minterms_to_binary 2 ([0, 1, 3] @ []))) {} 0
     = Some (Inr ({''0-'', ''-1''}, 2)) \<and>
   (0::int) \<in> set [0, 1, 3] \<and> ''0-'' \<in> {''0-'', ''-1''} \<and>
   covers ''0-'' (encode 2 0) = Inr True \<and>
   Set.filter (\<lambda>q. covers q (encode 2 0) = Inr True) {''0-'', ''-1''} = {''0-''} \<and>
   (\<exists>ts table. minimize sorted_list_of_set 2 [0, 1, 3] [] = Some (Inr ts) \<and>
      build_table (sorted_list_of_set {''0-'', ''-1''}) (minterms_to_binary 2 [0, 1, 3]) []
        = Inr table \<and>
      ''0-'' \<in> essential_of table \<and> essential_of table \<subseteq> set ts)"
proof -
  have e: "valid_enum sorted_list_of_set" by (simp add: valid_enum_def)
  have v: "valid_input 2 [0, 1, 3] []" by (simp add: valid_input_def in_range_def)
  have l: "merge_loop (set (minterms_to_binary 2 ([0, 1, 3] @ []))) {} 0
     = Some (Inr ({''0-'', ''-1''}, 2))" by code_simp
  have m: "(0::int) \<in> set [0, 1, 3]" by simp
  have p: "''0-'' \<in> {''0-'', ''-1''}" by simp
  have c: "covers ''0-'' (encode 2 0) = Inr True" by code_simp
  have f: "Set.filter (\<lambda>q. covers q (encode 2 0) = Inr True) {''0-'', ''-1''} = {''0-''}"
    by code_simp
  have u: "\<forall>q\<in>{''0-'', ''-1''}. covers q (encode 2 0) = Inr True \<longrightarrow> q = ''0-''"
    by code_simp
  note r = essential_implicants_kept [OF e v l m p c u]
  show ?thesis
    by (rule conjI [OF e conjI [OF v conjI [OF l conjI [OF m conjI [OF p conjI [OF c conjI [OF f r]]]]]]])
qed

subsection \<open>The constant-zero function\<close>

text \<open>
  C9. With an empty minterm list the minimisation raises nothing and returns the empty
  sequence, for every number of variables, every enumeration and every list of
  don't-cares in range (the empty one included).
\<close>

theorem constant_zero:
  assumes "in_range n dcs"
  shows "minimize enum n [] dcs = Some (Inr [])"
proof -
  let ?B = "set (minterms_to_binary n ([] @ dcs))"
  from in_range_uniform [OF assms] have "\<forall>t\<in>?B. length t = max 1 n" by simp
  from merge_loop_uniform [OF _ this] obtain P k where
    loop: "merge_loop ?B {} 0 = Some (Inr (P, k))" by auto
  have built: "build_table (enum P) (minterms_to_binary n []) [] = Inr []"
    by (simp add: minterms_to_binary_def)
  have rem: "remove_essential imps [] = Inr []" for imps
    by (induction imps) simp_all
  have ess: "essential_of [] = {}" by (simp add: essential_of_def)
  have g: "greedy (enum P) [] (essential_of []) = Some (Inr {})"
    by (subst greedy.simps) (simp add: ess)
  from minimize_unfold [where e = enum, OF loop built rem [of "enum (essential_of [])"] g]
  show ?thesis by simp
qed

theorem constant_zero_witness:
  "in_range 3 [] \<and> minimize sorted_list_of_set 3 [] [] = Some (Inr [])"
proof -
  have r: "in_range 3 []" by (simp add: in_range_def)
  from constant_zero [OF r] r show ?thesis by blast
qed

lemma uniform_or_mixed:
  "(\<exists>L. \<forall>t\<in>set xs. length t = L) \<or> (\<exists>a\<in>set xs. \<exists>b\<in>set xs. length a \<noteq> length b)"
proof (cases xs)
  case Nil
  then show ?thesis by simp
next
  case (Cons x ys)
  show ?thesis
  proof (cases "\<forall>t\<in>set xs. length t = length x")
    case True
    then show ?thesis by blast
  next
    case False
    with Cons show ?thesis by auto
  qed
qed

lemma loop8_eval:
  "merge_loop (set (minterms_to_binary 3 ([0, 1, 2, 3, 4, 5, 6, 7] @ []))) {} 0
     = Some (Inr ({''---''}, 4))"
proof -
  have e0: "minterms_to_binary 3 ([0, 1, 2, 3, 4, 5, 6, 7] @ []) =
      [''000'', ''001'', ''010'', ''011'', ''100'', ''101'', ''110'', ''111'']"
    by code_simp
  have e1: "remdups (next_list [''000'', ''001'', ''010'', ''011'', ''100'', ''101'', ''110'', ''111''])
      = [''00-'', ''0-0'', ''0-1'', ''01-'', ''-00'', ''-01'', ''10-'', ''-10'', ''1-0'', ''-11'',
         ''1-1'', ''11-'']"
    by code_simp
  have u1: "unused_list [''000'', ''001'', ''010'', ''011'', ''100'', ''101'', ''110'', ''111''] = []"
    by code_simp
  have e2: "remdups (next_list [''00-'', ''0-0'', ''0-1'', ''01-'', ''-00'', ''-01'', ''10-'', ''-10'',
         ''1-0'', ''-11'', ''1-1'', ''11-''])
      = [''0--'', ''-0-'', ''--0'', ''--1'', ''-1-'', ''1--'']"
    by code_simp
  have u2: "unused_list [''00-'', ''0-0'', ''0-1'', ''01-'', ''-00'', ''-01'', ''10-'', ''-10'',
         ''1-0'', ''-11'', ''1-1'', ''11-''] = []"
    by code_simp
  have e3: "remdups (next_list [''0--'', ''-0-'', ''--0'', ''--1'', ''-1-'', ''1--'']) = [''---'']"
    by code_simp
  have u3: "unused_list [''0--'', ''-0-'', ''--0'', ''--1'', ''-1-'', ''1--''] = []"
    by code_simp
  have e4: "remdups (next_list [''---'']) = []"
    by code_simp
  have u4: "unused_list [''---''] = [''---'']"
    by code_simp
  have "merge_loop (set (minterms_to_binary 3 ([0, 1, 2, 3, 4, 5, 6, 7] @ []))) {} 0
      = merge_loop (set [''00-'', ''0-0'', ''0-1'', ''01-'', ''-00'', ''-01'', ''10-'', ''-10'',
          ''1-0'', ''-11'', ''1-1'', ''11-'']) {} (Suc 0)"
    unfolding e0 by (subst merge_loop_step_list [where L = 3]) (simp_all add: e1 u1)
  also have "\<dots> = merge_loop (set [''0--'', ''-0-'', ''--0'', ''--1'', ''-1-'', ''1--'']) {}
      (Suc (Suc 0))"
    by (subst merge_loop_step_list [where L = 3]) (simp_all add: e2 u2)
  also have "\<dots> = merge_loop (set [''---'']) {} (Suc (Suc (Suc 0)))"
    by (subst merge_loop_step_list [where L = 3]) (simp_all add: e3 u3)
  also have "\<dots> = merge_loop (set []) {''---''} (Suc (Suc (Suc (Suc 0))))"
    by (subst merge_loop_step_list [where L = 3]) (simp_all add: e4 u4)
  also have "\<dots> = Some (Inr ({''---''}, 4))"
    by (subst merge_loop.simps) (simp add: eval_nat_numeral)
  finally show ?thesis .
qed

subsection \<open>The constant-one function of three variables\<close>

text \<open>
  C7. With three variables, the minterms \<open>0, ..., 7\<close> and no don't-cares, the minimisation
  returns exactly the one term \<open>---\<close>, whatever the enumeration of the sets.
\<close>

theorem constant_one:
  assumes "valid_enum enum"
  shows "minimize enum 3 [0, 1, 2, 3, 4, 5, 6, 7] [] = Some (Inr [''---''])"
proof -
  have v: "valid_input 3 [0, 1, 2, 3, 4, 5, 6, 7] []"
    by (simp add: valid_input_def in_range_def)
  from valid_input_uniform [OF v]
  have uni: "\<forall>t\<in>set (minterms_to_binary 3 ([0, 1, 2, 3, 4, 5, 6, 7] @ [])). length t = max 1 3"
    by simp
  show ?thesis
  proof (rule run_uniform [OF assms uni], goal_cases)
    case (1 P k tbl chosen)
    from 1(1) loop8_eval have P: "P = {''---''}" by simp
    from 1(9) have "\<exists>c\<in>chosen. cov c (encode 3 0)"
      by (simp add: minterms_to_binary_def)
    then have "chosen \<noteq> {}" by blast
    with 1(8) P have "chosen = {''---''}" by (simp only: subset_singleton_iff) simp
    with 1(10) show ?thesis by simp
  qed
qed

theorem constant_one_witness:
  "valid_enum sorted_list_of_set \<and>
   minimize sorted_list_of_set 3 [0, 1, 2, 3, 4, 5, 6, 7] [] = Some (Inr [''---''])"
proof -
  have e: "valid_enum sorted_list_of_set" by (simp add: valid_enum_def)
  from constant_one [OF e] e show ?thesis by blast
qed

subsection \<open>No input validation\<close>

text \<open>
  C6, as stated, fails: the code checks nothing. With one variable, the index \<open>0\<close> given
  both as a minterm and as a don't-care is minimised to \<open>0\<close>, and the out-of-range
  minterm \<open>2\<close> is minimised to the two-character term \<open>10\<close>.
\<close>

theorem input_validation_counterexample:
  "\<not> valid_input 1 [0] [0] \<and> minimize sorted_list_of_set 1 [0] [0] = Some (Inr [''0'']) \<and>
   \<not> valid_input 1 [2] [] \<and> minimize sorted_list_of_set 1 [2] [] = Some (Inr [''10''])"
proof -
  have a: "\<not> valid_input 1 [0] [0]" by (simp add: valid_input_def)
  have b: "minimize sorted_list_of_set 1 [0] [0] = Some (Inr [''0''])" by code_simp
  have c: "\<not> valid_input 1 [2] []" by (simp add: valid_input_def in_range_def)
  have d: "minimize sorted_list_of_set 1 [2] [] = Some (Inr [''10''])" by code_simp
  show ?thesis by (rule conjI [OF a conjI [OF b conjI [OF c d]]])
qed

text \<open>
  C6, amended. No input is rejected before the computation. The run ends with
  \<open>IndexError\<close>, raised in the first round of merging, exactly when two encoded terms have
  different lengths (which needs an index out of range); otherwise it returns a term
  sequence, also when the minterms and don't-cares overlap.
\<close>

theorem no_input_validation:
  assumes "valid_enum enum"
  shows "if \<exists>a\<in>set (minterms_to_binary n (ms @ dcs)).
              \<exists>b\<in>set (minterms_to_binary n (ms @ dcs)). length a \<noteq> length b
         then minimize enum n ms dcs = Some (Inl IndexError)
         else \<exists>ts. minimize enum n ms dcs = Some (Inr ts)"
proof (cases "\<exists>a\<in>set (minterms_to_binary n (ms @ dcs)).
              \<exists>b\<in>set (minterms_to_binary n (ms @ dcs)). length a \<noteq> length b")
  case True
  then obtain a b where ab: "a \<in> set (minterms_to_binary n (ms @ dcs))"
    "b \<in> set (minterms_to_binary n (ms @ dcs))" "length a \<noteq> length b"
    by (elim bexE)
  have r: "minimize enum n ms dcs = Some (Inl IndexError)"
    using ab by (rule minimize_mixed)
  show ?thesis unfolding if_P [OF True] by (rule r)
next
  case False
  have "\<exists>L. \<forall>t\<in>set (minterms_to_binary n (ms @ dcs)). length t = L"
    using uniform_or_mixed [of "minterms_to_binary n (ms @ dcs)"]
  proof (rule disjE)
    assume "\<exists>L. \<forall>t\<in>set (minterms_to_binary n (ms @ dcs)). length t = L"
    then show ?thesis .
  next
    assume "\<exists>a\<in>set (minterms_to_binary n (ms @ dcs)).
              \<exists>b\<in>set (minterms_to_binary n (ms @ dcs)). length a \<noteq> length b"
    with False show ?thesis by (rule notE)
  qed
  then obtain L where
    uni: "\<forall>t\<in>set (minterms_to_binary n (ms @ dcs)). length t = L" by (elim exE)
  have r: "\<exists>ts. minimize enum n ms dcs = Some (Inr ts)"
  proof (rule run_uniform [OF assms uni], goal_cases)
    case (1 P k tbl chosen)
    from 1(10) show ?case by (rule exI)
  qed
  show ?thesis unfolding if_not_P [OF False] by (rule r)
qed

theorem no_input_validation_witness:
  "valid_enum sorted_list_of_set \<and>
   (\<exists>a\<in>set (minterms_to_binary 1 ([1, 2] @ [])).
      \<exists>b\<in>set (minterms_to_binary 1 ([1, 2] @ [])). length a \<noteq> length b) \<and>
   minimize sorted_list_of_set 1 [1, 2] [] = Some (Inl IndexError) \<and>
   \<not> (\<exists>a\<in>set (minterms_to_binary 1 ([0] @ [0])).
        \<exists>b\<in>set (minterms_to_binary 1 ([0] @ [0])). length a \<noteq> length b) \<and>
   (\<exists>ts. minimize sorted_list_of_set 1 [0] [0] = Some (Inr ts))"
proof -
  have e: "valid_enum sorted_list_of_set" by (simp add: valid_enum_def)
  have c1: "\<exists>a\<in>set (minterms_to_binary 1 ([1, 2] @ [])).
      \<exists>b\<in>set (minterms_to_binary 1 ([1, 2] @ [])). length a \<noteq> length b"
    by code_simp
  have c2: "\<not> (\<exists>a\<in>set (minterms_to_binary 1 ([0] @ [0])).
        \<exists>b\<in>set (minterms_to_binary 1 ([0] @ [0])). length a \<noteq> length b)"
    by code_simp
  have r1: "minimize sorted_list_of_set 1 [1, 2] [] = Some (Inl IndexError)"
    using no_input_validation [OF e, of 1 "[1, 2]" "[]"] unfolding if_P [OF c1] .
  have r2: "\<exists>ts. minimize sorted_list_of_set 1 [0] [0] = Some (Inr ts)"
    using no_input_validation [OF e, of 1 "[0]" "[0]"] unfolding if_not_P [OF c2] .
  show ?thesis by (rule conjI [OF e conjI [OF c1 conjI [OF r1 conjI [OF c2 r2]]]])
qed

subsection \<open>Determinism\<close>








end
